theory Spec2Isabelle
  imports Main "HOL-Library.Multiset"
begin

section \<open>Employees and the object graph\<close>

text \<open>
  An \<open>Employee\<close> object has a name, a title and a list of references to its direct
  reports. Objects are addressed by references of type \<open>'r\<close>; the object graph is the
  function from references to objects. Python has no dangling reference and only
  finitely many live objects, so \<open>'r\<close> is a finite type throughout. Objects may share
  reports and may refer back to themselves: the type forbids neither.
\<close>

record 'r Employee =
  name :: string
  title :: string
  direct_reports :: "'r list"

type_synonym 'r heap = "'r \<Rightarrow> 'r Employee"

section \<open>Exceptions\<close>

text \<open>
  The two exceptions the traversal raises: the builtin \<open>StopIteration\<close> and the
  module's \<open>IterationError\<close>, which carries its message.
\<close>

datatype exn = StopIteration | IterationError string

datatype 'r outcome = Returned 'r | Raised exn

text \<open>
  The classes involved, with the direct base class of each: \<open>IterationError\<close> is
  declared with base \<open>RuntimeError\<close>; the other links are those of the builtin
  hierarchy.
\<close>

datatype exn_class =
  C_BaseException | C_Exception | C_RuntimeError | C_StopIteration | C_IterationError

fun base_class :: "exn_class \<Rightarrow> exn_class option" where
  "base_class C_IterationError = Some C_RuntimeError"
| "base_class C_RuntimeError = Some C_Exception"
| "base_class C_StopIteration = Some C_Exception"
| "base_class C_Exception = Some C_BaseException"
| "base_class C_BaseException = None"

fun ancestors :: "nat \<Rightarrow> exn_class \<Rightarrow> exn_class list" where
  "ancestors 0 c = [c]"
| "ancestors (Suc n) c =
     c # (case base_class c of None \<Rightarrow> [] | Some b \<Rightarrow> ancestors n b)"

definition mro :: "exn_class \<Rightarrow> exn_class list" where
  "mro c = ancestors 4 c"

definition issubclass :: "exn_class \<Rightarrow> exn_class \<Rightarrow> bool" where
  "issubclass c d = (d \<in> set (mro c))"

fun class_of :: "exn \<Rightarrow> exn_class" where
  "class_of StopIteration = C_StopIteration"
| "class_of (IterationError msg) = C_IterationError"

text \<open>\<open>except c\<close> handles the exception \<open>e\<close> when \<open>e\<close> is an instance of \<open>c\<close>.\<close>

definition isinstance :: "exn \<Rightarrow> exn_class \<Rightarrow> bool" where
  "isinstance e c = issubclass (class_of e) c"

section \<open>The iterator class\<close>

record 'r EmployeeIterator =
  employees_to_visit :: "'r list"
  employees_visited :: "string set"

definition EmployeeIterator_init :: "'r \<Rightarrow> 'r EmployeeIterator" where
  "EmployeeIterator_init employee =
     \<lparr>employees_to_visit = [employee], employees_visited = {}\<rparr>"

text \<open>
  \<open>__next__\<close>: the outcome of the call and the object's fields after it. The list is
  a stack whose top is its last element; \<open>pop\<close> is only reached on a non-empty list.
  The \<open>for\<close> loop appends the reports one by one.
\<close>

definition EmployeeIterator_next ::
  "'r heap \<Rightarrow> 'r EmployeeIterator \<Rightarrow> 'r outcome \<times> 'r EmployeeIterator" where
  "EmployeeIterator_next heap self =
     (if employees_to_visit self = [] then (Raised StopIteration, self)
      else
        let employee = last (employees_to_visit self);
            self1 = self\<lparr>employees_to_visit := butlast (employees_to_visit self)\<rparr>
        in if name (heap employee) \<in> employees_visited self1
           then (Raised (IterationError ''Cyclic loop detected''), self1)
           else
             let self2 = self1\<lparr>employees_visited :=
                           insert (name (heap employee)) (employees_visited self1)\<rparr>;
                 self3 = self2\<lparr>employees_to_visit :=
                           foldl (\<lambda>stack report. stack @ [report])
                             (employees_to_visit self2) (direct_reports (heap employee))\<rparr>
             in (Returned employee, self3))"

section \<open>The generator function\<close>

text \<open>
  A generator object is a suspended frame of the function body. Calling
  \<open>employee_generator\<close> runs none of the body: the frame only holds the argument.
  After a \<open>yield\<close> the frame holds the two locals that are still live, \<open>to_visit\<close> and
  \<open>visited\<close>. A frame that has returned or raised is finished, and resuming a
  finished generator raises \<open>StopIteration\<close>.
\<close>

datatype 'r generator =
  Created 'r
| Suspended "'r list" "string set"
| Finished

definition employee_generator :: "'r \<Rightarrow> 'r generator" where
  "employee_generator top_employee = Created top_employee"

text \<open>
  The \<open>while\<close> loop from its test up to the next \<open>yield\<close>, \<open>raise\<close> or exit: every
  iteration ends in a \<open>yield\<close> or a \<open>raise\<close>, so one resumption runs at most one
  iteration.
\<close>

definition generator_loop ::
  "'r heap \<Rightarrow> 'r list \<Rightarrow> string set \<Rightarrow> 'r outcome \<times> 'r generator" where
  "generator_loop heap to_visit visited =
     (if length to_visit > 0 then
        let employee = last to_visit;
            to_visit1 = butlast to_visit
        in if name (heap employee) \<in> visited
           then (Raised (IterationError ''Cyclic loop detected''), Finished)
           else
             let visited1 = insert (name (heap employee)) visited;
                 to_visit2 = foldl (\<lambda>stack report. stack @ [report])
                               to_visit1 (direct_reports (heap employee))
             in (Returned employee, Suspended to_visit2 visited1)
      else (Raised StopIteration, Finished))"

fun generator_next :: "'r heap \<Rightarrow> 'r generator \<Rightarrow> 'r outcome \<times> 'r generator" where
  "generator_next heap (Created top_employee) = generator_loop heap [top_employee] {}"
| "generator_next heap (Suspended to_visit visited) = generator_loop heap to_visit visited"
| "generator_next heap Finished = (Raised StopIteration, Finished)"

text \<open>
  The fields an iterator object would hold at the point where a generator frame stands:
  a frame that has not started corresponds to a freshly constructed iterator, a
  suspended frame to an iterator with the frame's two locals as fields.
\<close>

fun frame_fields :: "'r generator \<Rightarrow> 'r EmployeeIterator option" where
  "frame_fields (Created top_employee) = Some (EmployeeIterator_init top_employee)"
| "frame_fields (Suspended to_visit visited) =
     Some \<lparr>employees_to_visit = to_visit, employees_visited = visited\<rparr>"
| "frame_fields Finished = None"

section \<open>Consumers\<close>

text \<open>
  A consumer such as a \<open>for\<close> loop, a comprehension or \<open>list\<close> calls \<open>next\<close> until
  \<open>StopIteration\<close>, which ends it normally; any other exception propagates. The result
  is the sequence of elements delivered and the way the consumption ended. \<open>__iter__\<close>
  returns the iterator itself, so the consumer advances the object it was given. Every
  call reads the object graph as it is at that moment, hence the graph is an argument
  of each call. Both drains are total: each delivery adds a new name to the visited
  set, and the graph has finitely many names.
\<close>

datatype ending = Exhausted | Failed exn

fun deliver :: "'r \<Rightarrow> 'r list \<times> ending \<Rightarrow> 'r list \<times> ending" where
  "deliver emp (emps, e) = (emp # emps, e)"

fun stop :: "exn \<Rightarrow> 'r list \<times> ending" where
  "stop StopIteration = ([], Exhausted)"
| "stop (IterationError msg) = ([], Failed (IterationError msg))"

definition names :: "'r heap \<Rightarrow> string set" where
  "names heap = range (\<lambda>r. name (heap r))"

function drain_iterator ::
  "('r::finite) heap \<Rightarrow> 'r EmployeeIterator \<Rightarrow> 'r list \<times> ending" where
  "drain_iterator heap it =
     (case EmployeeIterator_next heap it of
        (Returned emp, it') \<Rightarrow> deliver emp (drain_iterator heap it')
      | (Raised ex, it') \<Rightarrow> stop ex)"
  by pat_completeness auto

lemma finite_names: "finite (names (heap :: ('r::finite) heap))"
  by (simp add: names_def)

lemma push_all: "foldl (\<lambda>stack report. stack @ [report]) xs ys = xs @ ys"
  by (induction ys arbitrary: xs) auto

lemma next_Returned:
  assumes "EmployeeIterator_next heap it = (Returned emp, it')"
  shows "employees_to_visit it \<noteq> []"
    and "emp = last (employees_to_visit it)"
    and "name (heap emp) \<notin> employees_visited it"
    and "employees_visited it' = insert (name (heap emp)) (employees_visited it)"
    and "employees_to_visit it' =
           butlast (employees_to_visit it) @ direct_reports (heap emp)"
  using assms
  by (auto simp: EmployeeIterator_next_def Let_def push_all split: if_splits)

termination drain_iterator
proof (relation "measure (\<lambda>(heap, it). card (names heap - employees_visited it))")
  show "wf (measure (\<lambda>(heap :: ('r::finite) heap, it :: 'r EmployeeIterator).
          card (names heap - employees_visited it)))"
    by simp
next
  fix heap :: "('r::finite) heap" and it x1 it' emp
  assume "(x1, it') = EmployeeIterator_next heap it" and "x1 = Returned emp"
  then have n: "EmployeeIterator_next heap it = (Returned emp, it')"
    by simp
  have "names heap - employees_visited it' \<subset> names heap - employees_visited it"
    using next_Returned(3,4) [OF n] by (auto simp: names_def)
  then have "card (names heap - employees_visited it') < card (names heap - employees_visited it)"
    by (intro psubset_card_mono finite_Diff finite_names)
  then show "((heap, it'), (heap, it)) \<in>
          measure (\<lambda>(heap, it). card (names heap - employees_visited it))"
    by simp
qed

function drain_generator ::
  "('r::finite) heap \<Rightarrow> 'r generator \<Rightarrow> 'r list \<times> ending" where
  "drain_generator heap g =
     (case generator_next heap g of
        (Returned emp, g') \<Rightarrow> deliver emp (drain_generator heap g')
      | (Raised ex, g') \<Rightarrow> stop ex)"
  by pat_completeness auto

fun generator_measure :: "'r heap \<Rightarrow> 'r generator \<Rightarrow> nat" where
  "generator_measure heap (Created top_employee) = Suc (card (names heap))"
| "generator_measure heap (Suspended to_visit visited) = card (names heap - visited)"
| "generator_measure heap Finished = 0"

lemma loop_Returned:
  assumes "generator_loop heap to_visit visited = (Returned emp, g')"
  shows "to_visit \<noteq> []"
    and "emp = last to_visit"
    and "name (heap emp) \<notin> visited"
    and "g' = Suspended (butlast to_visit @ direct_reports (heap emp))
                (insert (name (heap emp)) visited)"
  using assms
  by (auto simp: generator_loop_def Let_def push_all split: if_splits)

lemma card_names_less:
  fixes heap :: "('r::finite) heap"
  assumes "name (heap emp) \<notin> visited"
  shows "card (names heap - insert (name (heap emp)) visited) < card (names heap - visited)"
proof -
  have "names heap - insert (name (heap emp)) visited \<subset> names heap - visited"
    using assms by (auto simp: names_def)
  then show ?thesis
    by (intro psubset_card_mono finite_Diff finite_names)
qed

termination drain_generator
proof (relation "measure (\<lambda>(heap, g). generator_measure heap g)")
  show "wf (measure (\<lambda>(heap :: ('r::finite) heap, g). generator_measure heap g))"
    by simp
next
  fix heap :: "('r::finite) heap" and g x1 g' emp
  assume "(x1, g') = generator_next heap g" and "x1 = Returned emp"
  then have n: "generator_next heap g = (Returned emp, g')"
    by simp
  have "generator_measure heap g' < generator_measure heap g"
  proof (cases g)
    case (Created top_employee)
    with n have l: "generator_loop heap [top_employee] {} = (Returned emp, g')"
      by simp
    have "card (names heap - {name (heap emp)}) \<le> card (names heap)"
      by (intro card_mono finite_names) auto
    with loop_Returned(4) [OF l] Created show ?thesis
      by simp
  next
    case (Suspended to_visit visited)
    with n have l: "generator_loop heap to_visit visited = (Returned emp, g')"
      by simp
    from loop_Returned(3,4) [OF l] Suspended show ?thesis
      by (simp add: card_names_less)
  next
    case Finished
    with n show ?thesis by simp
  qed
  then show "((heap, g'), (heap, g)) \<in> measure (\<lambda>(heap, g). generator_measure heap g)"
    by simp
qed

section \<open>Repeated calls\<close>

text \<open>
  \<open>calls step n s\<close> performs \<open>n\<close> successive calls of \<open>step\<close>, threading the state, and
  collects the outcomes.
\<close>

fun calls :: "('s \<Rightarrow> 'o \<times> 's) \<Rightarrow> nat \<Rightarrow> 's \<Rightarrow> 'o list \<times> 's" where
  "calls step 0 s = ([], s)"
| "calls step (Suc n) s =
     (let (out, s1) = step s; (outs, s2) = calls step n s1 in (out # outs, s2))"

fun raised_at :: "ending \<Rightarrow> exn" where
  "raised_at Exhausted = StopIteration"
| "raised_at (Failed ex) = ex"

text \<open>
  The names of the employees of a sequence: what the visited set has gained once the
  sequence has been delivered.
\<close>

definition names_of :: "'r heap \<Rightarrow> 'r list \<Rightarrow> string set" where
  "names_of heap emps = (\<lambda>r. name (heap r)) ` set emps"

text \<open>
  The direct reports of the employees of a sequence, in order: what has been pushed
  once the sequence has been delivered.
\<close>

definition reports_of :: "'r heap \<Rightarrow> 'r list \<Rightarrow> 'r list" where
  "reports_of heap emps = concat (map (\<lambda>r. direct_reports (heap r)) emps)"

section \<open>Iterator objects in memory\<close>

text \<open>
  To speak about two iterator objects that exist at the same time, the list and the set
  of an iterator are objects of their own, kept in a memory and reached through the
  references held in the iterator's two attributes. A list display and a call of \<open>set\<close>
  each allocate a fresh object. The constructor stores the references to a new list
  holding the employee and to a new empty set; \<open>__next__\<close> never rebinds the attributes,
  it mutates the list and the set they refer to. \<open>pop\<close>, \<open>add\<close> and \<open>append\<close> update the
  object at the address, so two iterators whose attributes held the same address
  would see each other's updates.
\<close>

type_synonym address = nat

record 'r memory =
  list_objects :: "address \<Rightarrow> 'r list"
  set_objects :: "address \<Rightarrow> string set"
  next_address :: address

record iterator_object =
  employees_to_visit_ref :: address
  employees_visited_ref :: address

definition new_list :: "'r list \<Rightarrow> 'r memory \<Rightarrow> address \<times> 'r memory" where
  "new_list xs mem =
     (next_address mem,
      mem\<lparr>list_objects := (list_objects mem)(next_address mem := xs),
          next_address := Suc (next_address mem)\<rparr>)"

definition new_set :: "'r memory \<Rightarrow> address \<times> 'r memory" where
  "new_set mem =
     (next_address mem,
      mem\<lparr>set_objects := (set_objects mem)(next_address mem := {}),
          next_address := Suc (next_address mem)\<rparr>)"

definition new_EmployeeIterator :: "'r \<Rightarrow> 'r memory \<Rightarrow> iterator_object \<times> 'r memory" where
  "new_EmployeeIterator employee mem =
     (let (l, mem1) = new_list [employee] mem;
          (s, mem2) = new_set mem1
      in (\<lparr>employees_to_visit_ref = l, employees_visited_ref = s\<rparr>, mem2))"

definition next_EmployeeIterator ::
  "'r heap \<Rightarrow> iterator_object \<Rightarrow> 'r memory \<Rightarrow> 'r outcome \<times> 'r memory" where
  "next_EmployeeIterator heap self mem =
     (let l = employees_to_visit_ref self; s = employees_visited_ref self
      in if list_objects mem l = [] then (Raised StopIteration, mem)
         else
           let employee = last (list_objects mem l);
               mem1 = mem\<lparr>list_objects := (list_objects mem)(l := butlast (list_objects mem l))\<rparr>
           in if name (heap employee) \<in> set_objects mem1 s
              then (Raised (IterationError ''Cyclic loop detected''), mem1)
              else
                let mem2 = mem1\<lparr>set_objects := (set_objects mem1)
                             (s := insert (name (heap employee)) (set_objects mem1 s))\<rparr>;
                    mem3 = mem2\<lparr>list_objects := (list_objects mem2)
                             (l := foldl (\<lambda>stack report. stack @ [report])
                                     (list_objects mem2 l) (direct_reports (heap employee)))\<rparr>
                in (Returned employee, mem3))"

text \<open>
  A caller holding several iterator objects advances them in some order; the outcome of
  every call is recorded with the object it was made on. \<open>fields_of\<close> reads the list and
  the set an iterator refers to, and two iterators are separate when they refer to
  different lists and different sets.
\<close>

fun advance_all ::
  "'r heap \<Rightarrow> iterator_object list \<Rightarrow> 'r memory \<Rightarrow>
     (iterator_object \<times> 'r outcome) list \<times> 'r memory" where
  "advance_all heap [] mem = ([], mem)"
| "advance_all heap (c # cs) mem =
     (let (out, mem1) = next_EmployeeIterator heap c mem;
          (outs, mem2) = advance_all heap cs mem1
      in ((c, out) # outs, mem2))"

definition outcomes_on :: "'c \<Rightarrow> ('c \<times> 'o) list \<Rightarrow> 'o list" where
  "outcomes_on c events = map snd (filter (\<lambda>(c', out). c' = c) events)"

definition fields_of :: "'r memory \<Rightarrow> iterator_object \<Rightarrow> 'r EmployeeIterator" where
  "fields_of mem self =
     \<lparr>employees_to_visit = list_objects mem (employees_to_visit_ref self),
      employees_visited = set_objects mem (employees_visited_ref self)\<rparr>"

definition separate :: "iterator_object \<Rightarrow> iterator_object \<Rightarrow> bool" where
  "separate a b = (employees_to_visit_ref a \<noteq> employees_to_visit_ref b \<and>
                   employees_visited_ref a \<noteq> employees_visited_ref b)"

definition empty_memory :: "'r memory" where
  "empty_memory = \<lparr>list_objects = (\<lambda>a. []), set_objects = (\<lambda>a. {}), next_address = 0\<rparr>"

section \<open>Graph shapes\<close>

text \<open>
  The edges of the object graph are the report links. A graph below a root is a tree
  exactly when it unfolds into a finite tree of references: every node of the tree
  lists as children the direct reports of its object, in their order. A shared report
  occurs in the unfolding once per path that leads to it.
\<close>

datatype 'r tree = Tree 'r "'r tree list"

fun root :: "'r tree \<Rightarrow> 'r" where
  "root (Tree r ts) = r"

fun unfolds :: "'r heap \<Rightarrow> 'r tree \<Rightarrow> bool" where
  "unfolds heap (Tree r ts) =
     (direct_reports (heap r) = map root ts \<and> (\<forall>t \<in> set ts. unfolds heap t))"

fun nodes :: "'r tree \<Rightarrow> 'r list" where
  "nodes (Tree r ts) = r # concat (map nodes ts)"

fun last_child_first :: "'r tree \<Rightarrow> 'r list" where
  "last_child_first (Tree r ts) = r # concat (map last_child_first (rev ts))"

definition forest_nodes :: "'r tree list \<Rightarrow> 'r list" where
  "forest_nodes ts = concat (map nodes ts)"

definition forest_order :: "'r tree list \<Rightarrow> 'r list" where
  "forest_order ts = concat (map last_child_first (rev ts))"

definition edges :: "'r heap \<Rightarrow> ('r \<times> 'r) set" where
  "edges heap = {(x, y). y \<in> set (direct_reports (heap x))}"

definition reachable :: "'r heap \<Rightarrow> 'r \<Rightarrow> 'r set" where
  "reachable heap r = (edges heap)\<^sup>* `` {r}"

definition acyclic_below :: "'r heap \<Rightarrow> 'r \<Rightarrow> bool" where
  "acyclic_below heap r = (\<forall>x \<in> reachable heap r. (x, x) \<notin> (edges heap)\<^sup>+)"

fun subtrees :: "'r tree \<Rightarrow> 'r tree list" where
  "subtrees (Tree r ts) = Tree r ts # concat (map subtrees ts)"


section \<open>Example object graphs\<close>

text \<open>
  Four objects. \<open>staff\<close> is the graph of the module's \<open>main\<close>: a manager with two
  reports, and a hacker who has been appended to their own reports.
\<close>

datatype oid = Obj1 | Obj2 | Obj3 | Obj4

instantiation oid :: finite
begin
instance
proof
  have "(UNIV :: oid set) = {Obj1, Obj2, Obj3, Obj4}"
    using oid.exhaust by auto
  then show "finite (UNIV :: oid set)"
    by (metis finite.emptyI finite.insertI)
qed
end

fun staff :: "oid heap" where
  "staff Obj1 = \<lparr>name = ''Max Doe'', title = ''Engineering Manager'', direct_reports = [Obj2, Obj3]\<rparr>"
| "staff Obj2 = \<lparr>name = ''John Doe'', title = ''Software Engineer'', direct_reports = []\<rparr>"
| "staff Obj3 = \<lparr>name = ''Jane Doe'', title = ''Software Engineer'', direct_reports = []\<rparr>"
| "staff Obj4 = \<lparr>name = ''Unknown'', title = ''Hacker'', direct_reports = [Obj4]\<rparr>"

fun namesakes :: "oid heap" where
  "namesakes Obj1 = \<lparr>name = ''Max Doe'', title = ''Engineering Manager'', direct_reports = [Obj2, Obj3]\<rparr>"
| "namesakes Obj2 = \<lparr>name = ''John Doe'', title = ''Software Engineer'', direct_reports = []\<rparr>"
| "namesakes Obj3 = \<lparr>name = ''John Doe'', title = ''Data Engineer'', direct_reports = []\<rparr>"
| "namesakes Obj4 = \<lparr>name = ''Unknown'', title = ''Hacker'', direct_reports = []\<rparr>"

fun matrix :: "oid heap" where
  "matrix Obj1 = \<lparr>name = ''Max Doe'', title = ''Engineering Manager'', direct_reports = [Obj4, Obj2, Obj3]\<rparr>"
| "matrix Obj2 = \<lparr>name = ''John Doe'', title = ''Team Lead'', direct_reports = [Obj3]\<rparr>"
| "matrix Obj3 = \<lparr>name = ''Jane Doe'', title = ''Software Engineer'', direct_reports = []\<rparr>"
| "matrix Obj4 = \<lparr>name = ''Jim Doe'', title = ''Software Engineer'', direct_reports = []\<rparr>"

fun self_first :: "oid heap" where
  "self_first Obj1 = \<lparr>name = ''Unknown'', title = ''Hacker'', direct_reports = [Obj1, Obj2]\<rparr>"
| "self_first Obj2 = \<lparr>name = ''John Doe'', title = ''Software Engineer'', direct_reports = []\<rparr>"
| "self_first Obj3 = \<lparr>name = ''Jane Doe'', title = ''Software Engineer'', direct_reports = []\<rparr>"
| "self_first Obj4 = \<lparr>name = ''Jim Doe'', title = ''Software Engineer'', direct_reports = []\<rparr>"

fun self_last :: "oid heap" where
  "self_last Obj1 = \<lparr>name = ''Unknown'', title = ''Hacker'', direct_reports = [Obj2, Obj1]\<rparr>"
| "self_last Obj2 = \<lparr>name = ''John Doe'', title = ''Software Engineer'', direct_reports = []\<rparr>"
| "self_last Obj3 = \<lparr>name = ''Jane Doe'', title = ''Software Engineer'', direct_reports = []\<rparr>"
| "self_last Obj4 = \<lparr>name = ''Jim Doe'', title = ''Software Engineer'', direct_reports = []\<rparr>"

fun mutual :: "oid heap" where
  "mutual Obj1 = \<lparr>name = ''Max Doe'', title = ''Engineering Manager'', direct_reports = [Obj2]\<rparr>"
| "mutual Obj2 = \<lparr>name = ''John Doe'', title = ''Software Engineer'', direct_reports = [Obj1]\<rparr>"
| "mutual Obj3 = \<lparr>name = ''Jane Doe'', title = ''Software Engineer'', direct_reports = []\<rparr>"
| "mutual Obj4 = \<lparr>name = ''Jim Doe'', title = ''Software Engineer'', direct_reports = []\<rparr>"

fun mutual_namesakes :: "oid heap" where
  "mutual_namesakes Obj1 = \<lparr>name = ''John Doe'', title = ''Engineering Manager'', direct_reports = [Obj2]\<rparr>"
| "mutual_namesakes Obj2 = \<lparr>name = ''John Doe'', title = ''Software Engineer'', direct_reports = [Obj1]\<rparr>"
| "mutual_namesakes Obj3 = \<lparr>name = ''Jane Doe'', title = ''Software Engineer'', direct_reports = []\<rparr>"
| "mutual_namesakes Obj4 = \<lparr>name = ''Jim Doe'', title = ''Software Engineer'', direct_reports = []\<rparr>"


section \<open>The generator simulates the iterator\<close>

declare drain_iterator.simps [simp del] drain_generator.simps [simp del]

lemma loop_next:
  "generator_loop heap to_visit visited = (out, g) \<Longrightarrow>
   EmployeeIterator_next heap \<lparr>employees_to_visit = to_visit, employees_visited = visited\<rparr>
     = (out', it) \<Longrightarrow>
   out = out' \<and> (\<forall>emp. out = Returned emp \<longrightarrow> frame_fields g = Some it)"
  by (auto simp: generator_loop_def EmployeeIterator_next_def Let_def split: if_splits)

lemma next_simulation:
  assumes "frame_fields g = Some it"
    and "generator_next heap g = (out, g')"
    and "EmployeeIterator_next heap it = (out', it')"
  shows "out = out'" and "out = Returned emp \<Longrightarrow> frame_fields g' = Some it'"
proof -
  have "out = out' \<and> (\<forall>emp. out = Returned emp \<longrightarrow> frame_fields g' = Some it')"
  proof (cases g)
    case (Created top_employee)
    with assms show ?thesis
      using loop_next [of heap "[top_employee]" "{}" out g' out' it']
      by (simp add: EmployeeIterator_init_def)
  next
    case (Suspended to_visit visited)
    with assms show ?thesis
      using loop_next [of heap to_visit visited out g' out' it']
      by simp
  next
    case Finished
    with assms show ?thesis by simp
  qed
  then show "out = out'" and "out = Returned emp \<Longrightarrow> frame_fields g' = Some it'"
    by simp_all
qed

lemma drain_simulation:
  "frame_fields g = Some it \<Longrightarrow> drain_generator heap g = drain_iterator heap it"
proof (induction heap it arbitrary: g rule: drain_iterator.induct)
  case (1 heap it)
  obtain out it' where n: "EmployeeIterator_next heap it = (out, it')"
    by (cases "EmployeeIterator_next heap it")
  obtain out' g' where m: "generator_next heap g = (out', g')"
    by (cases "generator_next heap g")
  from next_simulation(1) [OF "1.prems" m n] have o: "out' = out" .
  show ?case
  proof (cases out)
    case (Returned emp)
    with next_simulation(2) [OF "1.prems" m n, of emp] o
    have "frame_fields g' = Some it'"
      by simp
    with "1.IH" [OF n [symmetric] Returned] have "drain_generator heap g' = drain_iterator heap it'"
      by simp
    with n m o Returned show ?thesis
      by (simp add: drain_iterator.simps [of heap it] drain_generator.simps [of heap g])
  next
    case (Raised ex)
    with n m o show ?thesis
      by (simp add: drain_iterator.simps [of heap it] drain_generator.simps [of heap g])
  qed
qed

lemmas run_simps = drain_iterator.simps drain_generator.simps EmployeeIterator_next_def
  EmployeeIterator_init_def generator_loop_def employee_generator_def


section \<open>Traversal of trees\<close>

lemma mset_last_child_first: "mset (last_child_first t) = mset (nodes t)"
proof (induction t)
  case (Tree r ts)
  have "mset (concat (map last_child_first (rev ts))) = mset (concat (map nodes ts))"
    using Tree.IH
  proof (induction ts)
    case Nil
    then show ?case by simp
  next
    case (Cons t ts)
    then show ?case by (simp add: mset_concat)
  qed
  then show ?case by simp
qed

lemma forest_drain:
  fixes heap :: "('r::finite) heap"
  assumes "\<forall>t \<in> set ts. unfolds heap t"
    and "distinct (map (\<lambda>r. name (heap r)) (forest_nodes ts))"
    and "\<forall>r \<in> set (forest_nodes ts). name (heap r) \<notin> visited"
  shows "drain_iterator heap \<lparr>employees_to_visit = map root ts, employees_visited = visited\<rparr>
           = (forest_order ts, Exhausted)"
  using assms
proof (induction "length (forest_nodes ts)" arbitrary: ts visited rule: less_induct)
  case less
  show ?case
  proof (cases ts rule: rev_cases)
    case Nil
    then show ?thesis
      by (simp add: drain_iterator.simps EmployeeIterator_next_def forest_order_def)
  next
    case (snoc ts1 t)
    obtain r cs where t: "t = Tree r cs"
      by (cases t)
    let ?ts' = "ts1 @ cs"
    let ?visited' = "insert (name (heap r)) visited"
    have reports: "direct_reports (heap r) = map root cs"
      using less.prems(1) snoc t by simp
    have fresh: "name (heap r) \<notin> visited"
      using less.prems(3) snoc t by (simp add: forest_nodes_def)
    have step: "EmployeeIterator_next heap
        \<lparr>employees_to_visit = map root ts, employees_visited = visited\<rparr>
        = (Returned r, \<lparr>employees_to_visit = map root ?ts', employees_visited = ?visited'\<rparr>)"
      using snoc t reports fresh
      by (simp add: EmployeeIterator_next_def push_all)
    have nodes_eq: "forest_nodes ts = forest_nodes ts1 @ r # forest_nodes cs"
      using snoc t by (simp add: forest_nodes_def)
    have nodes': "forest_nodes ?ts' = forest_nodes ts1 @ forest_nodes cs"
      by (simp add: forest_nodes_def)
    have smaller: "length (forest_nodes ?ts') < length (forest_nodes ts)"
      by (simp add: nodes_eq nodes')
    have u: "\<forall>t \<in> set ?ts'. unfolds heap t"
      using less.prems(1) snoc t by auto
    have d: "distinct (map (\<lambda>r. name (heap r)) (forest_nodes ?ts'))"
      using less.prems(2) by (simp add: nodes_eq nodes')
    have v: "\<forall>x \<in> set (forest_nodes ?ts'). name (heap x) \<notin> ?visited'"
      using less.prems(2,3) by (auto simp: nodes_eq nodes' image_iff)
    have "drain_iterator heap \<lparr>employees_to_visit = map root ?ts', employees_visited = ?visited'\<rparr>
            = (forest_order ?ts', Exhausted)"
      by (rule less.hyps [OF smaller u d v])
    moreover have "forest_order ts = r # forest_order ?ts'"
      using snoc t by (simp add: forest_order_def)
    ultimately show ?thesis
      using step
      by (simp add: drain_iterator.simps
          [of heap "\<lparr>employees_to_visit = map root ts, employees_visited = visited\<rparr>"])
  qed
qed

lemma tree_drain:
  fixes heap :: "('r::finite) heap"
  assumes "unfolds heap t" and "distinct (map (\<lambda>r. name (heap r)) (nodes t))"
  shows "drain_iterator heap (EmployeeIterator_init (root t)) = (last_child_first t, Exhausted)"
  using forest_drain [of "[t]" heap "{}"] assms
  by (simp add: forest_nodes_def forest_order_def EmployeeIterator_init_def)

lemma nodes_subtrees: "nodes t = map root (subtrees t)"
  by (induction t) (simp add: map_concat comp_def cong: map_cong)

lemma subtrees_self: "t \<in> set (subtrees t)"
  by (cases t) simp

lemma unfolds_subtrees: "unfolds heap t \<Longrightarrow> s \<in> set (subtrees t) \<Longrightarrow> unfolds heap s"
  by (induction t) auto

lemma subtrees_trans:
  "s \<in> set (subtrees t) \<Longrightarrow> u \<in> set (subtrees s) \<Longrightarrow> u \<in> set (subtrees t)"
  by (induction t) auto

lemma child_subtree:
  "unfolds heap t \<Longrightarrow> s \<in> set (subtrees t) \<Longrightarrow> (root s, y) \<in> edges heap \<Longrightarrow>
   \<exists>c \<in> set (subtrees s). root c = y \<and> size c < size s"
proof -
  assume u: "unfolds heap t" and s: "s \<in> set (subtrees t)" and e: "(root s, y) \<in> edges heap"
  obtain r cs where rs: "s = Tree r cs"
    by (cases s)
  have "unfolds heap s"
    using u s by (rule unfolds_subtrees)
  with rs e obtain c where c: "c \<in> set cs" "root c = y"
    by (auto simp: edges_def)
  have "size c \<le> size_list size cs"
    using c(1) by (simp add: size_list_estimation')
  then have "size c < size s"
    using rs by simp
  moreover have "c \<in> set (subtrees s)"
    using rs c(1) subtrees_self [of c] by auto
  ultimately show ?thesis
    using c(2) by blast
qed

lemma reachable_nodes:
  assumes "unfolds heap t"
  shows "reachable heap (root t) = set (nodes t)"
proof
  have "(root t, y) \<in> (edges heap)\<^sup>* \<Longrightarrow> y \<in> set (nodes t)" for y
  proof (induction rule: rtrancl_induct)
    case base
    then show ?case by (cases t) simp
  next
    case (step y z)
    then obtain s where s: "s \<in> set (subtrees t)" "root s = y"
      by (auto simp: nodes_subtrees)
    with child_subtree [OF assms s(1), of z] step.hyps(2)
    obtain c where "c \<in> set (subtrees s)" "root c = z"
      by auto
    with s(1) show ?case
      by (auto simp: nodes_subtrees dest: subtrees_trans)
  qed
  then show "reachable heap (root t) \<subseteq> set (nodes t)"
    by (auto simp: reachable_def)
next
  have "unfolds heap t \<Longrightarrow> set (nodes t) \<subseteq> reachable heap (root t)"
  proof (induction t)
    case (Tree r ts)
    have "set (nodes c) \<subseteq> reachable heap r" if c: "c \<in> set ts" for c
    proof -
      have "(r, root c) \<in> edges heap"
        using Tree.prems c by (auto simp: edges_def)
      moreover have "set (nodes c) \<subseteq> reachable heap (root c)"
        using Tree.IH [OF c] Tree.prems c by simp
      ultimately show ?thesis
        by (auto simp: reachable_def intro: converse_rtrancl_into_rtrancl)
    qed
    then show ?case
      by (auto simp: reachable_def)
  qed
  then show "set (nodes t) \<subseteq> reachable heap (root t)"
    using assms by simp
qed

lemma descendant_subtree:
  assumes "unfolds heap t" and "(root t, y) \<in> (edges heap)\<^sup>+"
  shows "\<exists>c \<in> set (subtrees t). root c = y \<and> size c < size t"
  using assms(2)
proof (induction rule: trancl_induct)
  case (base y)
  then show ?case
    using child_subtree [OF assms(1) subtrees_self] by blast
next
  case (step y z)
  then obtain c where c: "c \<in> set (subtrees t)" "root c = y" "size c < size t"
    by blast
  with child_subtree [OF assms(1) c(1), of z] step.hyps(2)
  obtain d where "d \<in> set (subtrees c)" "root d = z" "size d < size c"
    by auto
  with c show ?case
    by (metis less_trans subtrees_trans)
qed

lemma unfolds_no_loop: "unfolds heap t \<Longrightarrow> (root t, root t) \<notin> (edges heap)\<^sup>+"
proof (induction "size t" arbitrary: t rule: less_induct)
  case less
  show ?case
  proof
    assume "(root t, root t) \<in> (edges heap)\<^sup>+"
    with descendant_subtree [OF less.prems] obtain c
      where c: "c \<in> set (subtrees t)" "root c = root t" "size c < size t"
      by blast
    have "unfolds heap c"
      using less.prems c(1) by (rule unfolds_subtrees)
    with less.hyps [OF c(3)] have "(root c, root c) \<notin> (edges heap)\<^sup>+" .
    with c(2) \<open>(root t, root t) \<in> (edges heap)\<^sup>+\<close> show False
      by simp
  qed
qed

lemma unfolds_acyclic: "unfolds heap t \<Longrightarrow> acyclic_below heap (root t)"
  unfolding acyclic_below_def
proof
  fix x
  assume u: "unfolds heap t" and "x \<in> reachable heap (root t)"
  then obtain s where s: "s \<in> set (subtrees t)" "root s = x"
    by (auto simp: reachable_nodes nodes_subtrees)
  have "unfolds heap s"
    using u s(1) by (rule unfolds_subtrees)
  then show "(x, x) \<notin> (edges heap)\<^sup>+"
    using unfolds_no_loop s(2) by blast
qed

lemma stop_cases: "stop ex = (emps, e) \<Longrightarrow> emps = [] \<and> (e = Exhausted \<longleftrightarrow> ex = StopIteration)"
  by (cases ex) auto

lemma next_Raised:
  assumes "EmployeeIterator_next heap it = (Raised ex, it')"
  shows "ex = StopIteration \<longleftrightarrow> employees_to_visit it = []"
    and "ex \<noteq> StopIteration \<Longrightarrow> ex = IterationError ''Cyclic loop detected''"
    and "ex \<noteq> StopIteration \<Longrightarrow> name (heap (last (employees_to_visit it))) \<in> employees_visited it"
  using assms
  by (auto simp: EmployeeIterator_next_def Let_def split: if_splits)

lemma drain_Exhausted_forest:
  fixes heap :: "('r::finite) heap"
  shows "drain_iterator heap it = (emps, Exhausted) \<Longrightarrow>
    \<exists>ts. map root ts = employees_to_visit it \<and> (\<forall>t \<in> set ts. unfolds heap t) \<and>
         distinct (map (\<lambda>r. name (heap r)) (forest_nodes ts)) \<and>
         (\<forall>r \<in> set (forest_nodes ts). name (heap r) \<notin> employees_visited it)"
proof (induction heap it arbitrary: emps rule: drain_iterator.induct)
  case (1 heap it)
  obtain out it' where n: "EmployeeIterator_next heap it = (out, it')"
    by (cases "EmployeeIterator_next heap it")
  show ?case
  proof (cases out)
    case (Raised ex)
    with n "1.prems" have "stop ex = (emps, Exhausted)"
      by (simp add: drain_iterator.simps [of heap it])
    then have "ex = StopIteration"
      using stop_cases by blast
    with next_Raised(1) [OF n [unfolded Raised]] have "employees_to_visit it = []"
      by simp
    then show ?thesis
      by (intro exI [of _ "[]"]) (simp add: forest_nodes_def)
  next
    case (Returned emp)
    obtain emps' e' where d: "drain_iterator heap it' = (emps', e')"
      by (cases "drain_iterator heap it'")
    with n Returned "1.prems" have e': "e' = Exhausted"
      by (simp add: drain_iterator.simps [of heap it])
    from "1.IH" [OF n [symmetric] Returned d [unfolded e']]
    obtain ts where ts: "map root ts = employees_to_visit it'"
      "\<forall>t \<in> set ts. unfolds heap t"
      "distinct (map (\<lambda>r. name (heap r)) (forest_nodes ts))"
      "\<forall>r \<in> set (forest_nodes ts). name (heap r) \<notin> employees_visited it'"
      by blast
    note r = next_Returned [OF n [unfolded Returned]]
    let ?k = "length (butlast (employees_to_visit it))"
    define ts1 where "ts1 = take ?k ts"
    define cs where "cs = drop ?k ts"
    have split: "ts = ts1 @ cs"
      by (simp add: ts1_def cs_def)
    have "map root ts1 @ map root cs = butlast (employees_to_visit it) @ direct_reports (heap emp)"
      using ts(1) r(5) split by simp
    moreover have "length ts = ?k + length (direct_reports (heap emp))"
      using arg_cong [OF ts(1), of length] r(5) by simp
    then have "length (map root ts1) = ?k"
      by (simp add: ts1_def)
    ultimately have "map root ts1 = butlast (employees_to_visit it) \<and>
      map root cs = direct_reports (heap emp)"
      using append_eq_append_conv by blast
    then have roots: "map root ts1 = butlast (employees_to_visit it)"
      "map root cs = direct_reports (heap emp)"
      by simp_all
    let ?ts = "ts1 @ [Tree emp cs]"
    have "map root ?ts = employees_to_visit it"
      using roots(1) r(1,2) by simp
    moreover have "\<forall>t \<in> set ?ts. unfolds heap t"
      using ts(2) split roots(2) by auto
    moreover have "distinct (map (\<lambda>r. name (heap r)) (forest_nodes ?ts))"
      using ts(3,4) split r(4) by (auto simp: forest_nodes_def image_iff)
    moreover have "\<forall>r \<in> set (forest_nodes ?ts). name (heap r) \<notin> employees_visited it"
      using ts(4) split r(3,4) by (auto simp: forest_nodes_def)
    ultimately show ?thesis
      by blast
  qed
qed

section \<open>Calls, endings and objects in memory\<close>

lemma stop_raised_at: "stop ex = (emps, e) \<Longrightarrow> emps = [] \<and> raised_at e = ex"
  by (cases ex) auto

lemma drain_iterator_calls:
  fixes heap :: "('r::finite) heap"
  shows "drain_iterator heap it = (emps, e) \<Longrightarrow>
    fst (calls (EmployeeIterator_next heap) (Suc (length emps)) it)
      = map Returned emps @ [Raised (raised_at e)]"
proof (induction heap it arbitrary: emps e rule: drain_iterator.induct)
  case (1 heap it)
  obtain out it' where n: "EmployeeIterator_next heap it = (out, it')"
    by (cases "EmployeeIterator_next heap it")
  show ?case
  proof (cases out)
    case (Raised ex)
    with n "1.prems" have "stop ex = (emps, e)"
      by (simp add: drain_iterator.simps [of heap it])
    with stop_raised_at have "emps = []" "raised_at e = ex"
      by blast+
    with n Raised show ?thesis
      by simp
  next
    case (Returned emp)
    obtain emps' e' where d: "drain_iterator heap it' = (emps', e')"
      by (cases "drain_iterator heap it'")
    with n Returned "1.prems" have e: "emps = emp # emps'" "e = e'"
      by (simp_all add: drain_iterator.simps [of heap it])
    from "1.IH" [OF n [symmetric] Returned d]
    have "fst (calls (EmployeeIterator_next heap) (Suc (length emps')) it')
      = map Returned emps' @ [Raised (raised_at e')]" .
    with n Returned e show ?thesis
      by (simp add: calls.simps(2) [of _ "Suc (length emps')" it] split: prod.splits)
  qed
qed

lemma drain_generator_calls:
  fixes heap :: "('r::finite) heap"
  shows "drain_generator heap g = (emps, e) \<Longrightarrow>
    fst (calls (generator_next heap) (Suc (length emps)) g)
      = map Returned emps @ [Raised (raised_at e)]"
proof (induction heap g arbitrary: emps e rule: drain_generator.induct)
  case (1 heap g)
  obtain out g' where n: "generator_next heap g = (out, g')"
    by (cases "generator_next heap g")
  show ?case
  proof (cases out)
    case (Raised ex)
    with n "1.prems" have "stop ex = (emps, e)"
      by (simp add: drain_generator.simps [of heap g])
    with stop_raised_at have "emps = []" "raised_at e = ex"
      by blast+
    with n Raised show ?thesis
      by simp
  next
    case (Returned emp)
    obtain emps' e' where d: "drain_generator heap g' = (emps', e')"
      by (cases "drain_generator heap g'")
    with n Returned "1.prems" have e: "emps = emp # emps'" "e = e'"
      by (simp_all add: drain_generator.simps [of heap g])
    from "1.IH" [OF n [symmetric] Returned d]
    have "fst (calls (generator_next heap) (Suc (length emps')) g')
      = map Returned emps' @ [Raised (raised_at e')]" .
    with n Returned e show ?thesis
      by (simp add: calls.simps(2) [of _ "Suc (length emps')" g] split: prod.splits)
  qed
qed

lemma drain_ending:
  fixes heap :: "('r::finite) heap"
  shows "snd (drain_iterator heap it) = Exhausted \<or>
         snd (drain_iterator heap it) = Failed (IterationError ''Cyclic loop detected'')"
proof (induction heap it rule: drain_iterator.induct)
  case (1 heap it)
  obtain out it' where n: "EmployeeIterator_next heap it = (out, it')"
    by (cases "EmployeeIterator_next heap it")
  show ?case
  proof (cases out)
    case (Raised ex)
    show ?thesis
    proof (cases "ex = StopIteration")
      case True
      with n Raised show ?thesis
        by (simp add: drain_iterator.simps [of heap it])
    next
      case False
      with next_Raised(2) [OF n [unfolded Raised]] n Raised show ?thesis
        by (simp add: drain_iterator.simps [of heap it])
    qed
  next
    case (Returned emp)
    with "1.IH" [OF n [symmetric] Returned] n show ?thesis
      by (cases "drain_iterator heap it'") (simp add: drain_iterator.simps [of heap it])
  qed
qed

lemma drain_delivers_fresh:
  fixes heap :: "('r::finite) heap"
  shows "x \<in> set (fst (drain_iterator heap it)) \<Longrightarrow> name (heap x) \<notin> employees_visited it"
proof (induction heap it rule: drain_iterator.induct)
  case (1 heap it)
  obtain out it' where n: "EmployeeIterator_next heap it = (out, it')"
    by (cases "EmployeeIterator_next heap it")
  show ?case
  proof (cases out)
    case (Raised ex)
    with n "1.prems" show ?thesis
      by (cases ex) (simp_all add: drain_iterator.simps [of heap it])
  next
    case (Returned emp)
    note r = next_Returned [OF n [unfolded Returned]]
    from n Returned "1.prems" have "x = emp \<or> x \<in> set (fst (drain_iterator heap it'))"
      by (cases "drain_iterator heap it'") (auto simp: drain_iterator.simps [of heap it])
    then show ?thesis
    proof
      assume "x = emp"
      with r(3) show ?thesis by simp
    next
      assume "x \<in> set (fst (drain_iterator heap it'))"
      with "1.IH" [OF n [symmetric] Returned] have "name (heap x) \<notin> employees_visited it'"
        by simp
      with r(4) show ?thesis by simp
    qed
  qed
qed

lemma drain_Exhausted_acyclic:
  fixes heap :: "('r::finite) heap"
  assumes "drain_iterator heap (EmployeeIterator_init top_employee) = (emps, Exhausted)"
  shows "acyclic_below heap top_employee"
proof -
  from drain_Exhausted_forest [OF assms]
  obtain ts where "map root ts = employees_to_visit (EmployeeIterator_init top_employee)"
    and ts: "\<forall>t \<in> set ts. unfolds heap t"
    by blast
  then have "map root ts = [top_employee]"
    by (simp add: EmployeeIterator_init_def)
  then obtain t where "ts = [t]" "root t = top_employee"
    by (cases ts) auto
  with ts unfolds_acyclic [of heap t] show ?thesis
    by simp
qed

lemma cycle_fails:
  fixes heap :: "('r::finite) heap"
  assumes "\<not> acyclic_below heap top_employee"
  shows "snd (drain_iterator heap (EmployeeIterator_init top_employee))
           = Failed (IterationError ''Cyclic loop detected'')"
  using assms drain_ending [of heap "EmployeeIterator_init top_employee"]
    drain_Exhausted_acyclic [of heap top_employee "fst (drain_iterator heap (EmployeeIterator_init top_employee))"]
  by (metis prod.collapse)

text \<open>
  A call of \<open>__next__\<close> on an object in memory is a call on its fields, and leaves the
  fields of every separate object as they were. Two objects made by the constructor are
  separate. Two objects that refer to the same list are not independent: the second
  delivers what the first has pushed.
\<close>

lemma next_object_fields:
  "next_EmployeeIterator heap self mem = (out, mem') \<Longrightarrow>
   EmployeeIterator_next heap (fields_of mem self) = (out, fields_of mem' self)"
  by (auto simp: next_EmployeeIterator_def EmployeeIterator_next_def fields_of_def Let_def
      split: if_splits)

lemma next_object_frame:
  "separate c a \<Longrightarrow> fields_of (snd (next_EmployeeIterator heap c mem)) a = fields_of mem a"
  by (auto simp: next_EmployeeIterator_def fields_of_def separate_def Let_def)

lemma advance_all_projection:
  assumes "\<forall>c \<in> set sched. c = a \<or> separate c a"
  shows "outcomes_on a (fst (advance_all heap sched mem))
           = fst (calls (EmployeeIterator_next heap) (count_list sched a) (fields_of mem a)) \<and>
         fields_of (snd (advance_all heap sched mem)) a
           = snd (calls (EmployeeIterator_next heap) (count_list sched a) (fields_of mem a))"
  using assms
proof (induction sched arbitrary: mem)
  case Nil
  then show ?case by (simp add: outcomes_on_def)
next
  case (Cons c cs)
  obtain out mem1 where n: "next_EmployeeIterator heap c mem = (out, mem1)"
    by (cases "next_EmployeeIterator heap c mem")
  obtain outs mem2 where r: "advance_all heap cs mem1 = (outs, mem2)"
    by (cases "advance_all heap cs mem1")
  from Cons.prems have "\<forall>c \<in> set cs. c = a \<or> separate c a"
    by simp
  note IH = Cons.IH [OF this, of mem1, unfolded r]
  show ?case
  proof (cases "c = a")
    case True
    with next_object_fields n
    have "EmployeeIterator_next heap (fields_of mem a) = (out, fields_of mem1 a)"
      by blast
    with IH n r True show ?thesis
      by (simp add: outcomes_on_def split: prod.splits)
  next
    case False
    with Cons.prems have "separate c a"
      by simp
    from next_object_frame [OF this, of heap mem] n have "fields_of mem1 a = fields_of mem a"
      by simp
    with IH n r False show ?thesis
      by (simp add: outcomes_on_def)
  qed
qed

lemma new_objects:
  assumes "new_EmployeeIterator employee mem = (a, mem1)"
    and "new_EmployeeIterator employee' mem1 = (b, mem2)"
  shows "separate a b" and "separate b a"
    and "fields_of mem2 a = EmployeeIterator_init employee"
    and "fields_of mem2 b = EmployeeIterator_init employee'"
  using assms
  by (auto simp: new_EmployeeIterator_def new_list_def new_set_def separate_def fields_of_def
      EmployeeIterator_init_def Let_def)

lemma shared_list_interferes:
  "outcomes_on \<lparr>employees_to_visit_ref = 0, employees_visited_ref = 1\<rparr>
     (fst (advance_all staff
        [\<lparr>employees_to_visit_ref = 0, employees_visited_ref = 2\<rparr>,
         \<lparr>employees_to_visit_ref = 0, employees_visited_ref = 1\<rparr>]
        (empty_memory\<lparr>list_objects := (\<lambda>a. [])(0 := [Obj1])\<rparr>)))
     = [Returned Obj3] \<and>
   fst (calls (EmployeeIterator_next staff) 1 (EmployeeIterator_init Obj1)) = [Returned Obj1]"
  by (simp add: next_EmployeeIterator_def empty_memory_def outcomes_on_def
      EmployeeIterator_next_def EmployeeIterator_init_def)

section \<open>Acyclic graphs and normal endings\<close>

text \<open>
  Every acyclic graph below a root has an unfolding, the unfolding is unique, and a
  drain ends normally exactly when the unfolding of the graph below the root has
  pairwise different names.
\<close>

lemma reachable_report:
  assumes "y \<in> set (direct_reports (heap x))"
  shows "reachable heap y \<subseteq> reachable heap x"
proof -
  have "(x, y) \<in> edges heap"
    using assms by (simp add: edges_def)
  then show ?thesis
    by (auto simp: reachable_def intro: converse_rtrancl_into_rtrancl)
qed

lemma acyclic_report:
  assumes "acyclic_below heap x" and "y \<in> set (direct_reports (heap x))"
  shows "acyclic_below heap y" and "x \<notin> reachable heap y"
proof -
  show "acyclic_below heap y"
    using assms reachable_report [of y heap x] by (auto simp: acyclic_below_def)
  show "x \<notin> reachable heap y"
  proof
    assume "x \<in> reachable heap y"
    then have "(y, x) \<in> (edges heap)\<^sup>*"
      by (simp add: reachable_def)
    moreover have "(x, y) \<in> edges heap"
      using assms(2) by (simp add: edges_def)
    ultimately have "(x, x) \<in> (edges heap)\<^sup>+"
      by (rule rtrancl_into_trancl2 [rotated])
    moreover have "x \<in> reachable heap x"
      by (simp add: reachable_def)
    ultimately show False
      using assms(1) by (auto simp: acyclic_below_def)
  qed
qed

lemma trees_for_reports:
  assumes "\<forall>y \<in> set ys. \<exists>t. root t = y \<and> unfolds heap t"
  shows "\<exists>ts. map root ts = ys \<and> (\<forall>t \<in> set ts. unfolds heap t)"
  using assms
proof (induction ys)
  case Nil
  then show ?case by simp
next
  case (Cons y ys)
  then obtain t ts where "root t = y" "unfolds heap t"
    "map root ts = ys" "\<forall>t \<in> set ts. unfolds heap t"
    by auto
  then show ?case
    by (intro exI [of _ "t # ts"]) simp
qed

lemma acyclic_unfolds:
  fixes heap :: "('r::finite) heap"
  shows "acyclic_below heap x \<Longrightarrow> \<exists>t. root t = x \<and> unfolds heap t"
proof (induction "card (reachable heap x)" arbitrary: x rule: less_induct)
  case less
  have "\<exists>t. root t = y \<and> unfolds heap t" if y: "y \<in> set (direct_reports (heap x))" for y
  proof -
    have "reachable heap y \<subseteq> reachable heap x"
      using y reachable_report [of y heap x] by simp
    moreover have "x \<in> reachable heap x"
      by (simp add: reachable_def)
    ultimately have "reachable heap y \<subset> reachable heap x"
      using acyclic_report(2) [of heap x y] less.prems y by blast
    then have "card (reachable heap y) < card (reachable heap x)"
      by (intro psubset_card_mono) simp_all
    then show ?thesis
      using acyclic_report(1) [of heap x y] less.prems y less.hyps [of y] by simp
  qed
  then obtain ts where "map root ts = direct_reports (heap x)" "\<forall>t \<in> set ts. unfolds heap t"
    using trees_for_reports [of "direct_reports (heap x)" heap] by blast
  then show ?case
    by (intro exI [of _ "Tree x ts"]) simp
qed

lemma unfolds_unique: "unfolds heap t \<Longrightarrow> unfolds heap t' \<Longrightarrow> root t = root t' \<Longrightarrow> t = t'"
proof (induction t arbitrary: t')
  case (Tree r ts)
  obtain r' ts' where t': "t' = Tree r' ts'"
    by (cases t')
  with Tree.prems have r: "r' = r" and m: "map root ts = map root ts'"
    and u: "\<forall>t \<in> set ts. unfolds heap t" and u': "\<forall>t \<in> set ts'. unfolds heap t"
    by auto
  have "ts = ts'"
  proof (rule nth_equalityI)
    show l: "length ts = length ts'"
      using m by (rule map_eq_imp_length_eq)
    fix i
    assume i: "i < length ts"
    then have "root (ts ! i) = root (ts' ! i)"
      using m l by (metis nth_map)
    with Tree.IH [of "ts ! i" "ts' ! i"] u u' i l show "ts ! i = ts' ! i"
      by simp
  qed
  with t' r show ?case by simp
qed

lemma ends_normally_iff:
  fixes heap :: "('r::finite) heap"
  shows "snd (drain_iterator heap (EmployeeIterator_init x)) = Exhausted \<longleftrightarrow>
    (\<exists>t. root t = x \<and> unfolds heap t \<and> distinct (map (\<lambda>r. name (heap r)) (nodes t)))"
proof
  assume "snd (drain_iterator heap (EmployeeIterator_init x)) = Exhausted"
  then have "drain_iterator heap (EmployeeIterator_init x)
      = (fst (drain_iterator heap (EmployeeIterator_init x)), Exhausted)"
    by (metis prod.collapse)
  from drain_Exhausted_forest [OF this]
  obtain ts where "map root ts = employees_to_visit (EmployeeIterator_init x)"
    and ts: "\<forall>t \<in> set ts. unfolds heap t"
      "distinct (map (\<lambda>r. name (heap r)) (forest_nodes ts))"
    by blast
  then have "map root ts = [x]"
    by (simp add: EmployeeIterator_init_def)
  then obtain t where "ts = [t]" "root t = x"
    by (cases ts) auto
  with ts show "\<exists>t. root t = x \<and> unfolds heap t \<and> distinct (map (\<lambda>r. name (heap r)) (nodes t))"
    by (auto simp: forest_nodes_def)
next
  assume "\<exists>t. root t = x \<and> unfolds heap t \<and> distinct (map (\<lambda>r. name (heap r)) (nodes t))"
  then show "snd (drain_iterator heap (EmployeeIterator_init x)) = Exhausted"
    using tree_drain [of heap] by fastforce
qed

lemmas count_simps = numeral_2_eq_2 numeral_3_eq_3

lemma first_call:
  "EmployeeIterator_next heap (EmployeeIterator_init x) =
     (Returned x, \<lparr>employees_to_visit = direct_reports (heap x),
                   employees_visited = {name (heap x)}\<rparr>)"
  by (simp add: EmployeeIterator_next_def EmployeeIterator_init_def push_all)

text \<open>
  A drain of a suspended frame that fails: the calls before the failing one deliver the
  drained sequence, whose names are new and pairwise different, and the failing call
  pops an employee whose name is by then in the visited set.
\<close>

lemma loop_Raised:
  assumes "generator_loop heap to_visit visited = (Raised ex, g')"
  shows "g' = Finished"
    and "ex = StopIteration \<longleftrightarrow> to_visit = []"
    and "ex \<noteq> StopIteration \<Longrightarrow>
         ex = IterationError ''Cyclic loop detected'' \<and>
         name (heap (last to_visit)) \<in> visited"
  using assms
  by (auto simp: generator_loop_def Let_def split: if_splits)

lemma suspended_failure:
  fixes heap :: "('r::finite) heap"
  shows "g = Suspended to_visit visited \<Longrightarrow>
    drain_generator heap g = (emps, Failed ex) \<Longrightarrow>
    \<exists>to_visit'. calls (generator_next heap) (length emps) g
        = (map Returned emps, Suspended to_visit' (visited \<union> names_of heap emps)) \<and>
      to_visit' \<noteq> [] \<and>
      name (heap (last to_visit')) \<in> visited \<union> names_of heap emps \<and>
      distinct (map (\<lambda>r. name (heap r)) emps) \<and>
      visited \<inter> names_of heap emps = {}"
proof (induction heap g arbitrary: to_visit visited emps rule: drain_generator.induct)
  case (1 heap g)
  obtain out g' where n: "generator_next heap g = (out, g')"
    by (cases "generator_next heap g")
  with "1.prems"(1) have l: "generator_loop heap to_visit visited = (out, g')"
    by simp
  show ?case
  proof (cases out)
    case (Raised ex')
    with n "1.prems"(2) have s: "stop ex' = (emps, Failed ex)"
      by (simp add: drain_generator.simps [of heap g])
    then have e: "emps = []" and "ex' \<noteq> StopIteration"
      using stop_cases [OF s] by auto
    with loop_Raised(2,3) [OF l [unfolded Raised]]
    have "to_visit \<noteq> []" "name (heap (last to_visit)) \<in> visited"
      by auto
    with e "1.prems"(1) show ?thesis
      by (simp add: names_of_def)
  next
    case (Returned emp)
    note r = loop_Returned [OF l [unfolded Returned]]
    obtain emps' e' where d: "drain_generator heap g' = (emps', e')"
      by (cases "drain_generator heap g'")
    with n Returned "1.prems"(2) have e: "emps = emp # emps'" "e' = Failed ex"
      by (simp_all add: drain_generator.simps [of heap g])
    let ?visited' = "insert (name (heap emp)) visited"
    from "1.IH" [OF n [symmetric] Returned r(4) d [unfolded e(2)]]
    obtain to_visit' where
      c: "calls (generator_next heap) (length emps') g'
            = (map Returned emps', Suspended to_visit' (?visited' \<union> names_of heap emps'))"
      and t: "to_visit' \<noteq> []"
        "name (heap (last to_visit')) \<in> ?visited' \<union> names_of heap emps'"
      and dist: "distinct (map (\<lambda>r. name (heap r)) emps')"
      and disj: "?visited' \<inter> names_of heap emps' = {}"
      by blast
    have v: "?visited' \<union> names_of heap emps' = visited \<union> names_of heap emps"
      using e(1) by (auto simp: names_of_def)
    have "calls (generator_next heap) (length emps) g
            = (map Returned emps, Suspended to_visit' (visited \<union> names_of heap emps))"
      using n Returned c e(1) v by simp
    moreover have "distinct (map (\<lambda>r. name (heap r)) emps)"
      using dist disj e(1) by (auto simp: names_of_def)
    moreover have "visited \<inter> names_of heap emps = {}"
      using disj r(3) e(1) by (auto simp: names_of_def)
    ultimately show ?thesis
      using t v by auto
  qed
qed

text \<open>
  Nothing is lost from the stack: when the failing call is reached, the employees
  delivered and those still on the stack are, counted with repetition, the employees
  of the initial stack and the reports of the delivered ones.
\<close>

lemma suspended_pending:
  fixes heap :: "('r::finite) heap"
  shows "g = Suspended to_visit visited \<Longrightarrow>
    drain_generator heap g = (emps, Failed ex) \<Longrightarrow>
    calls (generator_next heap) (length emps) g
        = (map Returned emps, Suspended to_visit' visited') \<Longrightarrow>
    mset (to_visit' @ emps) = mset (to_visit @ reports_of heap emps)"
proof (induction heap g arbitrary: to_visit visited emps rule: drain_generator.induct)
  case (1 heap g)
  obtain out g' where n: "generator_next heap g = (out, g')"
    by (cases "generator_next heap g")
  with "1.prems"(1) have l: "generator_loop heap to_visit visited = (out, g')"
    by simp
  show ?case
  proof (cases out)
    case (Raised ex')
    with n "1.prems"(2) have s: "stop ex' = (emps, Failed ex)"
      by (simp add: drain_generator.simps [of heap g])
    then have "emps = []"
      using stop_cases [OF s] by simp
    with "1.prems"(1,3) show ?thesis
      by (simp add: reports_of_def)
  next
    case (Returned emp)
    note r = loop_Returned [OF l [unfolded Returned]]
    obtain emps' e' where d: "drain_generator heap g' = (emps', e')"
      by (cases "drain_generator heap g'")
    with n Returned "1.prems"(2) have e: "emps = emp # emps'" "e' = Failed ex"
      by (simp_all add: drain_generator.simps [of heap g])
    have "calls (generator_next heap) (length emps') g'
            = (map Returned emps', Suspended to_visit' visited')"
      using "1.prems"(3) n Returned e(1) by (simp split: prod.splits)
    from "1.IH" [OF n [symmetric] Returned r(4) d [unfolded e(2)] this]
    have "mset (to_visit' @ emps')
            = mset ((butlast to_visit @ direct_reports (heap emp)) @ reports_of heap emps')" .
    moreover have "mset to_visit = mset (butlast to_visit) + {#emp#}"
      using r(1,2) by (metis append_butlast_last_id mset.simps(2) mset_append mset_single_iff_right union_mset_add_mset_right add.right_neutral mset.simps(1))
    ultimately show ?thesis
      using e(1) by (simp add: reports_of_def)
  qed
qed

lemma mutual_cyclic: "\<not> acyclic_below mutual Obj1"
proof -
  have "(Obj1, Obj2) \<in> edges mutual" and "(Obj2, Obj1) \<in> edges mutual"
    by (simp_all add: edges_def)
  then have "(Obj1, Obj1) \<in> (edges mutual)\<^sup>+"
    by (meson trancl.intros)
  moreover have "Obj1 \<in> reachable mutual Obj1"
    by (simp add: reachable_def)
  ultimately show ?thesis
    unfolding acyclic_below_def by blast
qed

lemma first_pull:
  "generator_next heap (employee_generator top_employee) =
     (Returned top_employee,
      Suspended (direct_reports (heap top_employee)) {name (heap top_employee)})"
  by (simp add: employee_generator_def generator_loop_def push_all)

lemma self_report_cyclic:
  assumes "x \<in> set (direct_reports (heap x))"
  shows "\<not> acyclic_below heap x"
proof -
  have "(x, x) \<in> edges heap"
    using assms by (simp add: edges_def)
  then have "(x, x) \<in> (edges heap)\<^sup>+"
    by (rule r_into_trancl)
  moreover have "x \<in> reachable heap x"
    by (simp add: reachable_def)
  ultimately show ?thesis
    unfolding acyclic_below_def by blast
qed

lemma generator_Raised:
  assumes "generator_next heap g = (Raised ex, g')"
  shows "ex = StopIteration \<or> ex = IterationError ''Cyclic loop detected''"
  using assms
  by (cases g) (auto simp: generator_loop_def Let_def split: if_splits)

lemma next_IterationError:
  assumes "EmployeeIterator_next heap it = (Raised (IterationError msg), it')"
  shows "employees_to_visit it \<noteq> []"
    and "name (heap (last (employees_to_visit it))) \<in> employees_visited it"
    and "it' = it\<lparr>employees_to_visit := butlast (employees_to_visit it)\<rparr>"
  using assms
  by (auto simp: EmployeeIterator_next_def Let_def split: if_splits)

section \<open>Claims\<close>

text \<open>
  C1. Over the same object graph and the same root, draining the iterator and draining
  the generator give the same sequence of employees, element for element, and end the
  same way. This holds for every finite graph, so in particular for every finite
  acyclic one.
\<close>

theorem same_sequence:
  "drain_iterator heap (EmployeeIterator_init employee) =
   drain_generator heap (employee_generator employee)"
  by (simp add: drain_simulation employee_generator_def)

text \<open>
  C2 as stated fails on a graph with a shared report. In \<open>matrix\<close> the manager's
  reports are Jim, John and Jane, and Jane also reports to John. The graph is acyclic
  and four objects are reachable, yet both traversals deliver three employees and then
  raise \<open>IterationError\<close>: Jane is popped a second time, and Jim is never delivered.
\<close>

theorem shared_report_counterexample:
  "acyclic_below matrix Obj1 \<and> card (reachable matrix Obj1) = 4 \<and>
   drain_iterator matrix (EmployeeIterator_init Obj1)
     = ([Obj1, Obj3, Obj2], Failed (IterationError ''Cyclic loop detected'')) \<and>
   drain_generator matrix (employee_generator Obj1)
     = ([Obj1, Obj3, Obj2], Failed (IterationError ''Cyclic loop detected''))"
proof -
  let ?t = "Tree Obj1 [Tree Obj4 [], Tree Obj2 [Tree Obj3 []], Tree Obj3 []]"
  have u: "unfolds matrix ?t"
    by simp
  have "acyclic_below matrix (root ?t)"
    using u by (rule unfolds_acyclic)
  moreover have "reachable matrix (root ?t) = set (nodes ?t)"
    using u by (rule reachable_nodes)
  then have "reachable matrix Obj1 = {Obj1, Obj2, Obj3, Obj4}"
    by auto
  then have "card (reachable matrix Obj1) = 4"
    by simp
  moreover have "drain_iterator matrix (EmployeeIterator_init Obj1)
     = ([Obj1, Obj3, Obj2], Failed (IterationError ''Cyclic loop detected''))"
    by (simp add: run_simps)
  moreover have "drain_generator matrix (employee_generator Obj1)
     = ([Obj1, Obj3, Obj2], Failed (IterationError ''Cyclic loop detected''))"
    by (simp add: run_simps)
  ultimately show ?thesis
    by simp
qed

text \<open>
  C2, amended. When the graph below the root is a tree (it unfolds into a finite tree
  \<open>t\<close>) whose employees have pairwise different names, both traversals deliver the
  same sequence and end normally; the sequence has as many elements as there are
  reachable objects and contains each reachable object exactly once. Different names
  along the unfolding exclude shared reports, since a shared report occurs in it twice.
\<close>

theorem tree_traversal_complete:
  fixes heap :: "('r::finite) heap"
  assumes "unfolds heap t" and "distinct (map (\<lambda>r. name (heap r)) (nodes t))"
  shows "\<exists>emps. drain_iterator heap (EmployeeIterator_init (root t)) = (emps, Exhausted) \<and>
           drain_generator heap (employee_generator (root t)) = (emps, Exhausted) \<and>
           emps = last_child_first t \<and>
           length emps = card (reachable heap (root t)) \<and>
           distinct emps \<and> set emps = reachable heap (root t)"
proof -
  let ?emps = "last_child_first t"
  have i: "drain_iterator heap (EmployeeIterator_init (root t)) = (?emps, Exhausted)"
    using assms by (rule tree_drain)
  then have g: "drain_generator heap (employee_generator (root t)) = (?emps, Exhausted)"
    by (simp add: drain_simulation employee_generator_def)
  have m: "mset ?emps = mset (nodes t)"
    by (rule mset_last_child_first)
  have dn: "distinct (nodes t)"
    using assms(2) by (simp add: distinct_map)
  then have d: "distinct ?emps"
    using m by (metis mset_eq_imp_distinct_iff)
  have s: "set ?emps = reachable heap (root t)"
    using m reachable_nodes [OF assms(1)] by (metis mset_eq_setD)
  have "length ?emps = card (reachable heap (root t))"
    using d s by (metis distinct_card)
  with i g d s show ?thesis
    by simp
qed

theorem tree_traversal_complete_witness:
  "unfolds staff (Tree Obj1 [Tree Obj2 [], Tree Obj3 []]) \<and>
   distinct (map (\<lambda>r. name (staff r)) (nodes (Tree Obj1 [Tree Obj2 [], Tree Obj3 []]))) \<and>
   drain_iterator staff (EmployeeIterator_init Obj1) = ([Obj1, Obj3, Obj2], Exhausted) \<and>
   drain_generator staff (employee_generator Obj1) = ([Obj1, Obj3, Obj2], Exhausted) \<and>
   card (reachable staff Obj1) = 3"
  using tree_traversal_complete [of staff "Tree Obj1 [Tree Obj2 [], Tree Obj3 []]"]
  by simp

text \<open>
  C3 as stated fails when two of the three employees share a name. In \<open>namesakes\<close>
  the manager's reports are two different employees both called John Doe, neither with
  reports of their own. Both traversals deliver the manager and the second report, and
  raise \<open>IterationError\<close> when the first report is popped: the visited set holds names.
\<close>

theorem namesake_reports_counterexample:
  "direct_reports (namesakes Obj1) = [Obj2, Obj3] \<and>
   direct_reports (namesakes Obj2) = [] \<and> direct_reports (namesakes Obj3) = [] \<and>
   drain_iterator namesakes (EmployeeIterator_init Obj1)
     = ([Obj1, Obj3], Failed (IterationError ''Cyclic loop detected'')) \<and>
   drain_generator namesakes (employee_generator Obj1)
     = ([Obj1, Obj3], Failed (IterationError ''Cyclic loop detected''))"
  by (simp add: run_simps)

text \<open>
  C3, amended. For a root \<open>r\<close> whose reports are \<open>[a, b]\<close> in that order, where \<open>a\<close> and
  \<open>b\<close> have no reports and the three names are pairwise different, both traversals
  deliver exactly \<open>[r, b, a]\<close> and end normally. After the first call the stack holds
  the reports in their given order, \<open>[a, b]\<close>, and the last one pushed is popped first.
\<close>

theorem two_reports_order:
  fixes heap :: "('r::finite) heap"
  assumes "direct_reports (heap r) = [a, b]"
    and "direct_reports (heap a) = []" and "direct_reports (heap b) = []"
    and "distinct [name (heap r), name (heap a), name (heap b)]"
  shows "drain_iterator heap (EmployeeIterator_init r) = ([r, b, a], Exhausted) \<and>
         drain_generator heap (employee_generator r) = ([r, b, a], Exhausted) \<and>
         employees_to_visit (snd (EmployeeIterator_next heap (EmployeeIterator_init r))) = [a, b]"
  using assms by (auto simp: run_simps)

text \<open>
  The graph of \<open>main\<close> satisfies the hypotheses of C3 as amended: the manager is
  delivered first, then Jane, then John.
\<close>

theorem two_reports_order_witness:
  "direct_reports (staff Obj1) = [Obj2, Obj3] \<and>
   direct_reports (staff Obj2) = [] \<and> direct_reports (staff Obj3) = [] \<and>
   distinct [name (staff Obj1), name (staff Obj2), name (staff Obj3)] \<and>
   drain_iterator staff (EmployeeIterator_init Obj1) = ([Obj1, Obj3, Obj2], Exhausted) \<and>
   drain_generator staff (employee_generator Obj1) = ([Obj1, Obj3, Obj2], Exhausted)"
  using two_reports_order [of staff Obj1 Obj2 Obj3] by simp

text \<open>
  C4 as stated fails when the employee is not the last of their own reports. In
  \<open>self_first\<close> the hacker's reports are the hacker and then John. After the hacker has
  been delivered the next call does not fail: it delivers John, who was pushed after the
  hacker. Only the third call raises \<open>IterationError\<close>.
\<close>

theorem self_report_not_last_counterexample:
  "Obj1 \<in> set (direct_reports (self_first Obj1)) \<and>
   fst (calls (EmployeeIterator_next self_first) 3 (EmployeeIterator_init Obj1))
     = [Returned Obj1, Returned Obj2, Raised (IterationError ''Cyclic loop detected'')] \<and>
   fst (calls (generator_next self_first) 3 (employee_generator Obj1))
     = [Returned Obj1, Returned Obj2, Raised (IterationError ''Cyclic loop detected'')]"
  by (simp add: run_simps count_simps)

text \<open>
  C4, amended. For an employee \<open>x\<close> who is among their own direct reports, both
  traversals started at \<open>x\<close> deliver \<open>x\<close> first, never deliver \<open>x\<close> again, and end with
  \<open>IterationError\<close> after finitely many calls (the drains are total functions). When
  \<open>x\<close> is the last of their own reports nothing else is delivered: the failure comes at
  the very next call.
\<close>

theorem self_report_fails:
  fixes heap :: "('r::finite) heap"
  assumes "x \<in> set (direct_reports (heap x))"
  shows "\<exists>emps. drain_iterator heap (EmployeeIterator_init x)
             = (x # emps, Failed (IterationError ''Cyclic loop detected'')) \<and>
           drain_generator heap (employee_generator x)
             = (x # emps, Failed (IterationError ''Cyclic loop detected'')) \<and>
           x \<notin> set emps \<and>
           (last (direct_reports (heap x)) = x \<longrightarrow> emps = [])"
proof -
  let ?it1 = "\<lparr>employees_to_visit = direct_reports (heap x),
                employees_visited = {name (heap x)}\<rparr>"
  obtain emps e where d1: "drain_iterator heap ?it1 = (emps, e)"
    by (cases "drain_iterator heap ?it1")
  have d: "drain_iterator heap (EmployeeIterator_init x) = (x # emps, e)"
    using d1 by (simp add: drain_iterator.simps [of heap "EmployeeIterator_init x"] first_call)
  have "snd (drain_iterator heap (EmployeeIterator_init x))
          = Failed (IterationError ''Cyclic loop detected'')"
    using assms by (intro cycle_fails self_report_cyclic)
  with d have e: "e = Failed (IterationError ''Cyclic loop detected'')"
    by simp
  have "x \<notin> set emps"
    using drain_delivers_fresh [of x heap ?it1] d1 by auto
  moreover have "emps = []" if "last (direct_reports (heap x)) = x"
  proof -
    have "direct_reports (heap x) \<noteq> []"
      using assms by auto
    with that have "EmployeeIterator_next heap ?it1 =
        (Raised (IterationError ''Cyclic loop detected''),
         ?it1\<lparr>employees_to_visit := butlast (direct_reports (heap x))\<rparr>)"
      by (simp add: EmployeeIterator_next_def)
    with d1 show ?thesis
      by (simp add: drain_iterator.simps [of heap ?it1])
  qed
  moreover have "drain_generator heap (employee_generator x) = (x # emps, e)"
    using d by (simp add: drain_simulation employee_generator_def)
  ultimately show ?thesis
    using d e by simp
qed

text \<open>
  The hacker of \<open>main\<close>, appended to their own reports, satisfies the hypothesis of C4 as
  amended.
\<close>

theorem self_report_fails_witness:
  "Obj4 \<in> set (direct_reports (staff Obj4)) \<and>
   drain_iterator staff (EmployeeIterator_init Obj4)
     = ([Obj4], Failed (IterationError ''Cyclic loop detected'')) \<and>
   drain_generator staff (employee_generator Obj4)
     = ([Obj4], Failed (IterationError ''Cyclic loop detected''))"
  using self_report_fails [of Obj4 staff] by simp

text \<open>
  C5 as stated fails when the two employees of the cycle share a name. In
  \<open>mutual_namesakes\<close> two different employees called John Doe report to each other. Both
  traversals deliver the root and fail when the other employee is popped: that employee
  is never delivered, and the root is not popped a second time.
\<close>

theorem namesake_cycle_counterexample:
  "direct_reports (mutual_namesakes Obj1) = [Obj2] \<and>
   direct_reports (mutual_namesakes Obj2) = [Obj1] \<and>
   drain_iterator mutual_namesakes (EmployeeIterator_init Obj1)
     = ([Obj1], Failed (IterationError ''Cyclic loop detected'')) \<and>
   drain_generator mutual_namesakes (employee_generator Obj1)
     = ([Obj1], Failed (IterationError ''Cyclic loop detected''))"
  by (simp add: run_simps)

text \<open>
  C5, amended. For a root \<open>r\<close> whose only report is \<open>c\<close>, whose only report is \<open>r\<close>
  again, where the two have different names: the first call delivers \<open>r\<close>, the second
  delivers \<open>c\<close> and the third raises \<open>IterationError\<close>, under both realizations. The
  second call pushes \<open>r\<close> although its name is already in the visited set, and succeeds:
  after it the stack is \<open>[r]\<close>. The failure comes when \<open>r\<close> is popped, not when it is
  pushed.
\<close>

theorem indirect_cycle:
  fixes heap :: "('r::finite) heap"
  assumes "direct_reports (heap r) = [c]" and "direct_reports (heap c) = [r]"
    and "name (heap r) \<noteq> name (heap c)"
  shows "fst (calls (EmployeeIterator_next heap) 3 (EmployeeIterator_init r))
           = [Returned r, Returned c, Raised (IterationError ''Cyclic loop detected'')] \<and>
         fst (calls (generator_next heap) 3 (employee_generator r))
           = [Returned r, Returned c, Raised (IterationError ''Cyclic loop detected'')] \<and>
         snd (calls (EmployeeIterator_next heap) 2 (EmployeeIterator_init r))
           = \<lparr>employees_to_visit = [r],
               employees_visited = {name (heap c), name (heap r)}\<rparr> \<and>
         snd (calls (generator_next heap) 2 (employee_generator r))
           = Suspended [r] {name (heap c), name (heap r)} \<and>
         drain_iterator heap (EmployeeIterator_init r)
           = ([r, c], Failed (IterationError ''Cyclic loop detected'')) \<and>
         drain_generator heap (employee_generator r)
           = ([r, c], Failed (IterationError ''Cyclic loop detected''))"
  using assms by (simp add: run_simps count_simps)

text \<open>
  Two employees with different names who report to each other satisfy the hypotheses of
  C5 as amended.
\<close>

theorem indirect_cycle_witness:
  "direct_reports (mutual Obj1) = [Obj2] \<and> direct_reports (mutual Obj2) = [Obj1] \<and>
   name (mutual Obj1) \<noteq> name (mutual Obj2) \<and>
   drain_iterator mutual (EmployeeIterator_init Obj1)
     = ([Obj1, Obj2], Failed (IterationError ''Cyclic loop detected''))"
  using indirect_cycle [of mutual Obj1 Obj2] by simp

text \<open>
  C6. For a root without direct reports both traversals deliver exactly the root and
  then end normally: the first call returns the root, the second raises
  \<open>StopIteration\<close>, and no \<open>IterationError\<close> is raised.
\<close>

theorem lone_root:
  fixes heap :: "('r::finite) heap"
  assumes "direct_reports (heap employee) = []"
  shows "drain_iterator heap (EmployeeIterator_init employee) = ([employee], Exhausted) \<and>
         drain_generator heap (employee_generator employee) = ([employee], Exhausted) \<and>
         fst (calls (EmployeeIterator_next heap) 2 (EmployeeIterator_init employee))
           = [Returned employee, Raised StopIteration] \<and>
         fst (calls (generator_next heap) 2 (employee_generator employee))
           = [Returned employee, Raised StopIteration]"
  using assms by (simp add: run_simps count_simps)

text \<open>
  John Doe of \<open>main\<close> has no reports and satisfies the hypothesis of C6.
\<close>

theorem lone_root_witness:
  "direct_reports (staff Obj2) = [] \<and>
   drain_iterator staff (EmployeeIterator_init Obj2) = ([Obj2], Exhausted) \<and>
   drain_generator staff (employee_generator Obj2) = ([Obj2], Exhausted)"
  using lone_root [of staff Obj2] by simp

text \<open>
  C7. Every exception other than \<open>StopIteration\<close> that a call of \<open>__next__\<close> or a
  resumption of the generator raises is the cycle error, and it is an instance both of
  \<open>IterationError\<close> and of \<open>RuntimeError\<close>: a handler for either class catches it.
\<close>

theorem cycle_error_classes:
  assumes "fst (EmployeeIterator_next heap it) = Raised ex \<or>
           fst (generator_next heap g) = Raised ex"
    and "ex \<noteq> StopIteration"
  shows "ex = IterationError ''Cyclic loop detected'' \<and>
         isinstance ex C_IterationError \<and> isinstance ex C_RuntimeError"
proof -
  have "ex = IterationError ''Cyclic loop detected''"
    using assms(1)
  proof
    assume "fst (EmployeeIterator_next heap it) = Raised ex"
    then have "EmployeeIterator_next heap it = (Raised ex, snd (EmployeeIterator_next heap it))"
      by (metis prod.collapse)
    from next_Raised(2) [OF this assms(2)] show ?thesis .
  next
    assume "fst (generator_next heap g) = Raised ex"
    then have "generator_next heap g = (Raised ex, snd (generator_next heap g))"
      by (metis prod.collapse)
    from generator_Raised [OF this] assms(2) show ?thesis
      by simp
  qed
  then show ?thesis
    by (simp add: isinstance_def issubclass_def mro_def eval_nat_numeral)
qed

text \<open>
  Popping the hacker of \<open>main\<close> a second time raises such an exception, as C7 requires.
\<close>

theorem cycle_error_classes_witness:
  "fst (EmployeeIterator_next staff \<lparr>employees_to_visit = [Obj4], employees_visited = {''Unknown''}\<rparr>)
     = Raised (IterationError ''Cyclic loop detected'') \<and>
   isinstance (IterationError ''Cyclic loop detected'') C_IterationError \<and>
   isinstance (IterationError ''Cyclic loop detected'') C_RuntimeError"
  using cycle_error_classes [of staff
      "\<lparr>employees_to_visit = [Obj4], employees_visited = {''Unknown''}\<rparr>"
      "IterationError ''Cyclic loop detected''" "Finished"]
  by (simp add: EmployeeIterator_next_def)

text \<open>
  C8. When a cycle is reachable from the top employee, calling \<open>employee_generator\<close>
  only creates the frame: nothing of the body runs and nothing is raised. The drain
  fails with \<open>IterationError\<close>. Before the failure every resumption delivers one
  employee of the drained sequence, the top employee first, each with a name not seen
  before. The frame then holds in \<open>visited\<close> exactly the delivered names and in
  \<open>to_visit\<close> exactly what has been pushed and not yet delivered: the top employee and
  the reports of the delivered employees, less the delivered ones. \<open>to_visit\<close> is not
  empty, its last element carries a name that has already been delivered, and it is the
  resumption of this frame, which pops that element, that raises.
\<close>

theorem generator_fails_at_pull:
  fixes heap :: "('r::finite) heap"
  assumes "\<not> acyclic_below heap top_employee"
  shows "employee_generator top_employee = Created top_employee \<and>
    (\<exists>emps to_visit.
       drain_generator heap (employee_generator top_employee)
         = (top_employee # emps, Failed (IterationError ''Cyclic loop detected'')) \<and>
       calls (generator_next heap) (Suc (length emps)) (employee_generator top_employee)
         = (map Returned (top_employee # emps),
            Suspended to_visit (names_of heap (top_employee # emps))) \<and>
       distinct (map (\<lambda>r. name (heap r)) (top_employee # emps)) \<and>
       mset (to_visit @ top_employee # emps)
         = mset (top_employee # reports_of heap (top_employee # emps)) \<and>
       to_visit \<noteq> [] \<and>
       name (heap (last to_visit)) \<in> names_of heap (top_employee # emps) \<and>
       generator_next heap (Suspended to_visit (names_of heap (top_employee # emps)))
         = (Raised (IterationError ''Cyclic loop detected''), Finished))"
proof -
  let ?g = "employee_generator top_employee"
  let ?err = "IterationError ''Cyclic loop detected''"
  let ?g1 = "Suspended (direct_reports (heap top_employee)) {name (heap top_employee)}"
  obtain all e where d: "drain_generator heap ?g = (all, e)"
    by (cases "drain_generator heap ?g")
  then have "drain_iterator heap (EmployeeIterator_init top_employee) = (all, e)"
    by (simp add: drain_simulation employee_generator_def)
  with cycle_fails [OF assms] have e: "e = Failed ?err"
    by simp
  obtain emps er where r: "drain_generator heap ?g1 = (emps, er)"
    by (cases "drain_generator heap ?g1")
  with d e have d1: "drain_generator heap ?g1 = (emps, Failed ?err)"
    and d': "drain_generator heap ?g = (top_employee # emps, Failed ?err)"
    by (simp_all add: drain_generator.simps [of heap ?g] first_pull)
  from suspended_failure [OF refl d1]
  obtain to_visit where
    c: "calls (generator_next heap) (length emps) ?g1
          = (map Returned emps, Suspended to_visit ({name (heap top_employee)} \<union> names_of heap emps))"
    and t: "to_visit \<noteq> []"
      "name (heap (last to_visit)) \<in> {name (heap top_employee)} \<union> names_of heap emps"
    and dist: "distinct (map (\<lambda>r. name (heap r)) emps)"
    and disj: "{name (heap top_employee)} \<inter> names_of heap emps = {}"
    by blast
  let ?visited = "names_of heap (top_employee # emps)"
  have v: "{name (heap top_employee)} \<union> names_of heap emps = ?visited"
    by (auto simp: names_of_def)
  have 1: "calls (generator_next heap) (Suc (length emps)) ?g
          = (map Returned (top_employee # emps), Suspended to_visit ?visited)"
    using c v by (simp add: first_pull)
  have 2: "distinct (map (\<lambda>r. name (heap r)) (top_employee # emps))"
    using dist disj by (auto simp: names_of_def)
  have 3: "name (heap (last to_visit)) \<in> ?visited"
    using t(2) unfolding v .
  have 4: "generator_next heap (Suspended to_visit ?visited) = (Raised ?err, Finished)"
    using t(1) 3 by (simp add: generator_loop_def)
  have "mset (to_visit @ emps)
          = mset (direct_reports (heap top_employee) @ reports_of heap emps)"
    using refl d1 c by (rule suspended_pending)
  then have 5: "mset (to_visit @ top_employee # emps)
          = mset (top_employee # reports_of heap (top_employee # emps))"
    by (simp add: reports_of_def)
  from d' 1 2 t(1) 3 4 5 show ?thesis
    by (auto simp: employee_generator_def)
qed

text \<open>
  Two employees who report to each other satisfy the hypothesis of C8: both are
  delivered, and the third resumption, which pops the manager again, raises.
\<close>

theorem generator_fails_at_pull_witness:
  "\<not> acyclic_below mutual Obj1 \<and>
   employee_generator Obj1 = Created Obj1 \<and>
   drain_generator mutual (employee_generator Obj1)
     = ([Obj1, Obj2], Failed (IterationError ''Cyclic loop detected'')) \<and>
   calls (generator_next mutual) 2 (employee_generator Obj1)
     = ([Returned Obj1, Returned Obj2], Suspended [Obj1] {''Max Doe'', ''John Doe''}) \<and>
   generator_next mutual (Suspended [Obj1] {''Max Doe'', ''John Doe''})
     = (Raised (IterationError ''Cyclic loop detected''), Finished)"
proof -
  from generator_fails_at_pull [OF mutual_cyclic]
  have "employee_generator Obj1 = Created Obj1"
    by (rule conjunct1)
  moreover have "drain_generator mutual (employee_generator Obj1)
     = ([Obj1, Obj2], Failed (IterationError ''Cyclic loop detected''))"
    by (simp add: run_simps)
  moreover have "calls (generator_next mutual) 2 (employee_generator Obj1)
     = ([Returned Obj1, Returned Obj2], Suspended [Obj1] {''Max Doe'', ''John Doe''})"
    by (auto simp: run_simps count_simps)
  moreover have "generator_next mutual (Suspended [Obj1] {''Max Doe'', ''John Doe''})
     = (Raised (IterationError ''Cyclic loop detected''), Finished)"
    by (simp add: run_simps)
  ultimately show ?thesis
    using mutual_cyclic by simp
qed

text \<open>
  C9. Two iterator objects \<open>a\<close> and \<open>b\<close> are constructed one after the other over the
  same employee, in any memory, and advanced in an arbitrary interleaving \<open>sched\<close>. The
  outcomes observed on each of them are those of the same number of calls on a single
  iterator advanced alone, and in every later memory a call on one of them leaves the
  list and the set of the other as they were. The constructor's fresh list and fresh
  set are what makes this hold.
\<close>

theorem cursors_independent:
  assumes "new_EmployeeIterator employee mem = (a, mem1)"
    and "new_EmployeeIterator employee mem1 = (b, mem2)"
    and "set sched \<subseteq> {a, b}"
  shows "outcomes_on a (fst (advance_all heap sched mem2))
           = fst (calls (EmployeeIterator_next heap) (count_list sched a)
                   (EmployeeIterator_init employee)) \<and>
         outcomes_on b (fst (advance_all heap sched mem2))
           = fst (calls (EmployeeIterator_next heap) (count_list sched b)
                   (EmployeeIterator_init employee)) \<and>
         fields_of (snd (next_EmployeeIterator heap a mem')) b = fields_of mem' b \<and>
         fields_of (snd (next_EmployeeIterator heap b mem')) a = fields_of mem' a"
proof -
  note o = new_objects [OF assms(1,2)]
  have "\<forall>c \<in> set sched. c = a \<or> separate c a"
    using assms(3) o(2) by auto
  from advance_all_projection [OF this, of heap mem2] o(3)
  have 1: "outcomes_on a (fst (advance_all heap sched mem2))
           = fst (calls (EmployeeIterator_next heap) (count_list sched a)
                   (EmployeeIterator_init employee))"
    by simp
  have "\<forall>c \<in> set sched. c = b \<or> separate c b"
    using assms(3) o(1) by auto
  from advance_all_projection [OF this, of heap mem2] o(4)
  have 2: "outcomes_on b (fst (advance_all heap sched mem2))
           = fst (calls (EmployeeIterator_next heap) (count_list sched b)
                   (EmployeeIterator_init employee))"
    by simp
  from 1 2 next_object_frame [OF o(1), of heap mem'] next_object_frame [OF o(2), of heap mem']
  show ?thesis
    by simp
qed

text \<open>
  Two iterators constructed over the manager of \<open>main\<close> in an empty memory receive the
  addresses 0, 1 and 2, 3; advanced in an interleaving, the first delivers the full
  sequence, as C9 states.
\<close>

theorem cursors_independent_witness:
  "new_EmployeeIterator Obj1 empty_memory
     = (\<lparr>employees_to_visit_ref = 0, employees_visited_ref = 1\<rparr>,
        snd (new_EmployeeIterator Obj1 (empty_memory :: oid memory))) \<and>
   fst (new_EmployeeIterator Obj1 (snd (new_EmployeeIterator Obj1 (empty_memory :: oid memory))))
     = \<lparr>employees_to_visit_ref = 2, employees_visited_ref = 3\<rparr> \<and>
   outcomes_on \<lparr>employees_to_visit_ref = 0, employees_visited_ref = 1\<rparr>
     (fst (advance_all staff
        [\<lparr>employees_to_visit_ref = 0, employees_visited_ref = 1\<rparr>,
         \<lparr>employees_to_visit_ref = 2, employees_visited_ref = 3\<rparr>,
         \<lparr>employees_to_visit_ref = 2, employees_visited_ref = 3\<rparr>,
         \<lparr>employees_to_visit_ref = 0, employees_visited_ref = 1\<rparr>,
         \<lparr>employees_to_visit_ref = 2, employees_visited_ref = 3\<rparr>,
         \<lparr>employees_to_visit_ref = 2, employees_visited_ref = 3\<rparr>,
         \<lparr>employees_to_visit_ref = 0, employees_visited_ref = 1\<rparr>,
         \<lparr>employees_to_visit_ref = 0, employees_visited_ref = 1\<rparr>]
        (snd (new_EmployeeIterator Obj1 (snd (new_EmployeeIterator Obj1 empty_memory))))))
     = [Returned Obj1, Returned Obj3, Returned Obj2, Raised StopIteration]"
proof -
  let ?a = "\<lparr>employees_to_visit_ref = 0, employees_visited_ref = 1\<rparr>"
  let ?b = "\<lparr>employees_to_visit_ref = 2, employees_visited_ref = 3\<rparr>"
  let ?mem1 = "snd (new_EmployeeIterator Obj1 (empty_memory :: oid memory))"
  let ?mem2 = "snd (new_EmployeeIterator Obj1 ?mem1)"
  have a: "new_EmployeeIterator Obj1 (empty_memory :: oid memory) = (?a, ?mem1)"
    by (simp add: new_EmployeeIterator_def new_list_def new_set_def empty_memory_def)
  have b: "new_EmployeeIterator Obj1 ?mem1 = (?b, ?mem2)"
    by (simp add: new_EmployeeIterator_def new_list_def new_set_def empty_memory_def)
  have s: "set [?a, ?b, ?b, ?a, ?b, ?b, ?a, ?a] \<subseteq> {?a, ?b}"
    by simp
  have "outcomes_on ?a (fst (advance_all staff [?a, ?b, ?b, ?a, ?b, ?b, ?a, ?a] ?mem2))
      = fst (calls (EmployeeIterator_next staff) (count_list [?a, ?b, ?b, ?a, ?b, ?b, ?a, ?a] ?a)
              (EmployeeIterator_init Obj1))"
    using cursors_independent [OF a b s, of staff] by (rule conjunct1)
  also have "\<dots> = [Returned Obj1, Returned Obj3, Returned Obj2, Raised StopIteration]"
    by (simp add: EmployeeIterator_next_def EmployeeIterator_init_def)
  finally have o: "outcomes_on ?a (fst (advance_all staff [?a, ?b, ?b, ?a, ?b, ?b, ?a, ?a] ?mem2))
      = [Returned Obj1, Returned Obj3, Returned Obj2, Raised StopIteration]" .
  have "fst (new_EmployeeIterator Obj1 ?mem1) = ?b"
    by (simp add: new_EmployeeIterator_def new_list_def new_set_def empty_memory_def)
  with a o show ?thesis
    by (intro conjI)
qed

text \<open>
  C10. When \<open>__next__\<close> raises \<open>IterationError\<close> the stack was not empty, the name of
  its last element was already in the visited set, and after the call the stack has
  lost that element while the visited set is the same. The object records no failure,
  so a later call continues with the rest of the stack: in \<open>self_last\<close>, where the
  hacker's reports are John and then the hacker, the second call raises and the third
  delivers John.
\<close>

theorem failed_cursor_resumes:
  "(EmployeeIterator_next heap it = (Raised (IterationError msg), it') \<longrightarrow>
      employees_to_visit it \<noteq> [] \<and>
      name (heap (last (employees_to_visit it))) \<in> employees_visited it \<and>
      employees_to_visit it' = butlast (employees_to_visit it) \<and>
      employees_visited it' = employees_visited it) \<and>
   fst (calls (EmployeeIterator_next self_last) 4 (EmployeeIterator_init Obj1))
     = [Returned Obj1, Raised (IterationError ''Cyclic loop detected''),
        Returned Obj2, Raised StopIteration]"
proof (intro conjI impI)
  assume n: "EmployeeIterator_next heap it = (Raised (IterationError msg), it')"
  show "employees_to_visit it \<noteq> []"
    using n by (rule next_IterationError(1))
  show "name (heap (last (employees_to_visit it))) \<in> employees_visited it"
    using n by (rule next_IterationError(2))
  show "employees_to_visit it' = butlast (employees_to_visit it)"
    using next_IterationError(3) [OF n] by simp
  show "employees_visited it' = employees_visited it"
    using next_IterationError(3) [OF n] by simp
next
  show "fst (calls (EmployeeIterator_next self_last) 4 (EmployeeIterator_init Obj1))
     = [Returned Obj1, Raised (IterationError ''Cyclic loop detected''),
        Returned Obj2, Raised StopIteration]"
    by (simp add: EmployeeIterator_next_def EmployeeIterator_init_def eval_nat_numeral)
qed

text \<open>
  The failing call of C10 and the one after it in \<open>self_last\<close>.
\<close>

theorem failed_cursor_resumes_witness:
  "EmployeeIterator_next self_last
      \<lparr>employees_to_visit = [Obj2, Obj1], employees_visited = {''Unknown''}\<rparr>
     = (Raised (IterationError ''Cyclic loop detected''),
        \<lparr>employees_to_visit = [Obj2], employees_visited = {''Unknown''}\<rparr>) \<and>
   EmployeeIterator_next self_last
      \<lparr>employees_to_visit = [Obj2], employees_visited = {''Unknown''}\<rparr>
     = (Returned Obj2, \<lparr>employees_to_visit = [], employees_visited = {''John Doe'', ''Unknown''}\<rparr>)"
  using failed_cursor_resumes [of self_last
      "\<lparr>employees_to_visit = [Obj2, Obj1], employees_visited = {''Unknown''}\<rparr>"
      "''Cyclic loop detected''"
      "\<lparr>employees_to_visit = [Obj2], employees_visited = {''Unknown''}\<rparr>"]
  by (simp add: EmployeeIterator_next_def)

end
